theory Spec2Isabelle
  imports Main "HOL-Library.AList"
begin

section \<open>JavaScript values shared by the server modules\<close>

text \<open>
  Strings are modelled as \<^typ>\<open>string\<close>, holding the UTF-8 bytes of the JavaScript
  string; every delimiter, prefix and digit the modules look for is ASCII.
  A value that may be \<^verbatim>\<open>undefined\<close> or \<^verbatim>\<open>null\<close> is an \<^typ>\<open>'a option\<close>.
  \<^verbatim>\<open>Date.now()\<close> is passed to every function that reads the clock, as an
  \<^typ>\<open>int\<close> of milliseconds since the epoch.
\<close>

text \<open>JavaScript truthiness of a \<^verbatim>\<open>string | null | undefined\<close>: the test
  \<^verbatim>\<open>if (v)\<close>. Both a missing value and the empty string are falsy.\<close>

definition truthy :: "string option \<Rightarrow> bool" where
  "truthy v = (case v of None \<Rightarrow> False | Some s \<Rightarrow> s \<noteq> [])"

text \<open>The value that passes the test \<^verbatim>\<open>if (v)\<close>, if any.\<close>

definition when_truthy :: "string option \<Rightarrow> string option" where
  "when_truthy v = (case v of None \<Rightarrow> None | Some s \<Rightarrow> if s = [] then None else Some s)"

text \<open>\<^verbatim>\<open>s.split(d)\<close> for a one-character separator: always at least one part.\<close>

fun split_on :: "char \<Rightarrow> string \<Rightarrow> string list" where
  "split_on d [] = [[]]"
| "split_on d (c # cs) =
     (if c = d then [] # split_on d cs
      else (case split_on d cs of
              [] \<Rightarrow> [[c]]
            | p # ps \<Rightarrow> (c # p) # ps))"

text \<open>
  White space, as \<^verbatim>\<open>String.prototype.trim\<close> and \<^verbatim>\<open>parseInt\<close> see it (the WhiteSpace
  and LineTerminator code points of ECMAScript), in its UTF-8 bytes: the six ASCII
  characters tab, line feed, vertical tab, form feed, carriage return and space; the
  two bytes of U+00A0; the three bytes of U+1680, U+2000 to U+200A, U+2028, U+2029,
  U+202F, U+205F, U+3000 and U+FEFF.
\<close>

definition is_space :: "char \<Rightarrow> bool" where
  "is_space c = (c \<in> set [CHR 0x09, CHR 0x0A, CHR 0x0B, CHR 0x0C, CHR 0x0D, CHR 0x20])"

definition is_space2 :: "char \<Rightarrow> char \<Rightarrow> bool" where
  "is_space2 a b = (a = CHR 0xC2 \<and> b = CHR 0xA0)"

definition is_space3 :: "char \<Rightarrow> char \<Rightarrow> char \<Rightarrow> bool" where
  "is_space3 a b c =
     ((a = CHR 0xE1 \<and> b = CHR 0x9A \<and> c = CHR 0x80)
      \<or> (a = CHR 0xE2 \<and> b = CHR 0x80
          \<and> ((128 \<le> (of_char c :: nat) \<and> (of_char c :: nat) \<le> 138)
              \<or> c = CHR 0xA8 \<or> c = CHR 0xA9 \<or> c = CHR 0xAF))
      \<or> (a = CHR 0xE2 \<and> b = CHR 0x81 \<and> c = CHR 0x9F)
      \<or> (a = CHR 0xE3 \<and> b = CHR 0x80 \<and> c = CHR 0x80)
      \<or> (a = CHR 0xEF \<and> b = CHR 0xBB \<and> c = CHR 0xBF))"

text \<open>Dropping the white space a string starts with; \<open>sp2\<close> and \<open>sp3\<close> recognise the
  two-byte and three-byte characters in the order the bytes are met.\<close>

fun drop_space ::
  "(char \<Rightarrow> char \<Rightarrow> bool) \<Rightarrow> (char \<Rightarrow> char \<Rightarrow> char \<Rightarrow> bool) \<Rightarrow> string \<Rightarrow> string" where
  "drop_space sp2 sp3 (a # b # c # cs) =
     (if is_space a then drop_space sp2 sp3 (b # c # cs)
      else if sp2 a b then drop_space sp2 sp3 (c # cs)
      else if sp3 a b c then drop_space sp2 sp3 cs
      else a # b # c # cs)"
| "drop_space sp2 sp3 [a, b] =
     (if is_space a then drop_space sp2 sp3 [b]
      else if sp2 a b then []
      else [a, b])"
| "drop_space sp2 sp3 [a] = (if is_space a then [] else [a])"
| "drop_space sp2 sp3 [] = []"

definition trimStart :: "string \<Rightarrow> string" where
  "trimStart s = drop_space is_space2 is_space3 s"

definition trimEnd :: "string \<Rightarrow> string" where
  "trimEnd s = rev (drop_space (\<lambda>b a. is_space2 a b) (\<lambda>c b a. is_space3 a b c) (rev s))"

text \<open>\<^verbatim>\<open>s.trim()\<close>.\<close>

definition trim :: "string \<Rightarrow> string" where
  "trim s = trimEnd (trimStart s)"

text \<open>\<^verbatim>\<open>s.startsWith(p)\<close>; \<^verbatim>\<open>s.substring(n)\<close> is \<^term>\<open>drop n s\<close>.\<close>

definition startsWith :: "string \<Rightarrow> string \<Rightarrow> bool" where
  "startsWith s p = (take (length p) s = p)"

text \<open>\<^verbatim>\<open>s.toUpperCase()\<close> on ASCII letters (a request method is an ASCII token).\<close>

definition toUpperChar :: "char \<Rightarrow> char" where
  "toUpperChar c =
     (let n = (of_char c :: nat) in if 97 \<le> n \<and> n \<le> 122 then char_of (n - 32) else c)"

definition toUpperCase :: "string \<Rightarrow> string" where
  "toUpperCase s = map toUpperChar s"

text \<open>Exceptions are values: a call that may throw returns \<open>js_error + 'a\<close>,
  with \<open>Inl\<close> the exception.\<close>

datatype js_error = TypeError | RangeError

text \<open>The process environment, as far as the two modules read it.\<close>

record env =
  CLAWSUITE_PASSWORD :: "string option"
  CLAWSUITE_PASSWORD_HASH :: "string option"
  TRUSTED_PROXY_IP :: "string option"

text \<open>A request: \<^verbatim>\<open>request.method\<close> and \<^verbatim>\<open>request.headers.get(name)\<close>.\<close>

record request =
  req_method :: string
  req_headers :: "string \<Rightarrow> string option"

record response =
  status :: nat
  body :: string
  contentType :: string

section \<open>Session store (auth-middleware.ts)\<close>

text \<open>
  \<^verbatim>\<open>validTokens\<close> is a JavaScript \<^verbatim>\<open>Map<string, number>\<close>, which iterates in
  insertion order: an association list, oldest entry first.
  \<^verbatim>\<open>Map.set\<close> is \<^const>\<open>AList.update\<close> (an existing key keeps its
  place, a new key goes to the end), \<^verbatim>\<open>Map.delete\<close> is \<^const>\<open>AList.delete\<close>,
  \<^verbatim>\<open>Map.get\<close> is \<^const>\<open>map_of\<close>.
\<close>

type_synonym sessions = "(string \<times> int) list"

definition MAX_SESSIONS :: nat where
  "MAX_SESSIONS = 1000"

definition SESSION_TTL_MS :: int where
  "SESSION_TTL_MS = 30 * 24 * 60 * 60 * 1000"

text \<open>\<^verbatim>\<open>validTokens.keys().next().value\<close>: the first key, or undefined.\<close>

definition oldestKey :: "sessions \<Rightarrow> string option" where
  "oldestKey s = (case s of [] \<Rightarrow> None | (k, _) # _ \<Rightarrow> Some k)"

definition storeSessionToken :: "int \<Rightarrow> string \<Rightarrow> sessions \<Rightarrow> sessions" where
  "storeSessionToken now token s =
     (let s1 = (if length s \<ge> MAX_SESSIONS then
                  (case oldestKey s of
                     None \<Rightarrow> s
                   | Some k \<Rightarrow> if k \<noteq> [] then AList.delete k s else s)
                else s)
      in AList.update token (now + SESSION_TTL_MS) s1)"

definition isValidSessionToken :: "int \<Rightarrow> string \<Rightarrow> sessions \<Rightarrow> bool \<times> sessions" where
  "isValidSessionToken now token s =
     (case map_of s token of
        None \<Rightarrow> (False, s)
      | Some expiresAt \<Rightarrow>
          if expiresAt = 0 then (False, s)
          else if now > expiresAt then (False, AList.delete token s)
          else (True, s))"

definition revokeSessionToken :: "string \<Rightarrow> sessions \<Rightarrow> sessions" where
  "revokeSessionToken token s = AList.delete token s"

text \<open>The three exported functions are the only code that reads or writes
  \<^verbatim>\<open>validTokens\<close> (a constant private to the module, with no timer attached to
  it): the store changes through these steps only, each taken at some clock reading.\<close>

datatype session_op = Store string | IsValid string | Revoke string

fun session_step :: "int \<times> session_op \<Rightarrow> sessions \<Rightarrow> sessions" where
  "session_step (now, Store token) s = storeSessionToken now token s"
| "session_step (now, IsValid token) s = snd (isValidSessionToken now token s)"
| "session_step (now, Revoke token) s = revokeSessionToken token s"

fun session_run :: "(int \<times> session_op) list \<Rightarrow> sessions \<Rightarrow> sessions" where
  "session_run [] s = s"
| "session_run (x # xs) s = session_run xs (session_step x s)"

text \<open>The state of a store that holds session tokens: the keys of a \<^verbatim>\<open>Map\<close> are
  distinct, a session token is not the empty string, and the store is within its
  capacity.\<close>

definition sessions_inv :: "sessions \<Rightarrow> bool" where
  "sessions_inv s =
     (distinct (map fst s) \<and> [] \<notin> fst ` set s \<and> length s \<le> MAX_SESSIONS)"

text \<open>A run of stores, each at its own clock reading, and the entries such a run
  writes; the tokens of the worked examples are \<open>a\<close> repeated \<open>i\<close> times for
  \<open>i = 1, 2, \<dots>\<close>, all stored at clock reading 0.\<close>

definition stores :: "(int \<times> string) list \<Rightarrow> (int \<times> session_op) list" where
  "stores ps = map (\<lambda>(now, token). (now, Store token)) ps"

definition entries :: "(int \<times> string) list \<Rightarrow> sessions" where
  "entries ps = map (\<lambda>(now, token). (token, now + SESSION_TTL_MS)) ps"

definition example_tokens :: "nat \<Rightarrow> (int \<times> string) list" where
  "example_tokens n = map (\<lambda>i. (0, replicate (Suc i) (CHR ''a''))) [0..<n]"

section \<open>Password verification (auth-middleware.ts)\<close>

definition isPasswordProtectionEnabled :: "env \<Rightarrow> bool" where
  "isPasswordProtectionEnabled e =
     (truthy (CLAWSUITE_PASSWORD e) \<or> truthy (CLAWSUITE_PASSWORD_HASH e))"

text \<open>A \<^verbatim>\<open>Buffer\<close> is a list of bytes; a byte is a \<^typ>\<open>char\<close>, so that
  \<^verbatim>\<open>Buffer.from(s, 'utf8')\<close> is the string itself.\<close>

type_synonym buffer = "char list"

definition Buffer_from_utf8 :: "string \<Rightarrow> buffer" where
  "Buffer_from_utf8 s = s"

text \<open>\<^verbatim>\<open>arr[i]\<close>: undefined out of range.\<close>

definition nth_opt :: "'a list \<Rightarrow> nat \<Rightarrow> 'a option" where
  "nth_opt xs i = (if i < length xs then Some (xs ! i) else None)"

text \<open>\<^verbatim>\<open>parseInt(v, 10)\<close>: leading white space and one sign are skipped, then the
  longest run of decimal digits is read; \<open>None\<close> is NaN (no digit, or \<^verbatim>\<open>undefined\<close>).\<close>

definition digit_val :: "char \<Rightarrow> nat option" where
  "digit_val c =
     (let n = (of_char c :: nat) in if 48 \<le> n \<and> n \<le> 57 then Some (n - 48) else None)"

fun parse_digits :: "nat \<Rightarrow> string \<Rightarrow> nat" where
  "parse_digits acc [] = acc"
| "parse_digits acc (c # cs) =
     (case digit_val c of None \<Rightarrow> acc | Some d \<Rightarrow> parse_digits (10 * acc + d) cs)"

definition parseInt :: "string option \<Rightarrow> int option" where
  "parseInt v =
     (case v of
        None \<Rightarrow> None
      | Some s \<Rightarrow>
          (let t = trimStart s;
               neg = (case t of [] \<Rightarrow> False | c # _ \<Rightarrow> c = CHR ''-'');
               u = (case t of [] \<Rightarrow> [] | c # r \<Rightarrow> if c = CHR ''-'' \<or> c = CHR ''+'' then r else t)
           in case u of
                [] \<Rightarrow> None
              | c # _ \<Rightarrow>
                  if digit_val c = None then None
                  else Some (if neg then - int (parse_digits 0 u) else int (parse_digits 0 u))))"

text \<open>\<^verbatim>\<open>Buffer.from(h, 'hex')\<close> decodes pairs of hexadecimal digits and stops at the
  first pair that is not one (or at a single trailing character); it throws a TypeError
  on \<^verbatim>\<open>undefined\<close>. \<^verbatim>\<open>buf.toString('hex')\<close> writes two lower-case digits a byte.\<close>

definition hex_val :: "char \<Rightarrow> nat option" where
  "hex_val c =
     (let n = (of_char c :: nat) in
      if 48 \<le> n \<and> n \<le> 57 then Some (n - 48)
      else if 97 \<le> n \<and> n \<le> 102 then Some (n - 87)
      else if 65 \<le> n \<and> n \<le> 70 then Some (n - 55)
      else None)"

fun decode_hex :: "string \<Rightarrow> buffer" where
  "decode_hex (a # b # rest) =
     (case hex_val a of
        None \<Rightarrow> []
      | Some h \<Rightarrow>
          (case hex_val b of
             None \<Rightarrow> []
           | Some l \<Rightarrow> char_of (16 * h + l) # decode_hex rest))"
| "decode_hex _ = []"

definition Buffer_from_hex :: "string option \<Rightarrow> js_error + buffer" where
  "Buffer_from_hex v = (case v of None \<Rightarrow> Inl TypeError | Some h \<Rightarrow> Inr (decode_hex h))"

definition hex_digit :: "nat \<Rightarrow> char" where
  "hex_digit n = (if n < 10 then char_of (48 + n) else char_of (87 + n))"

definition toString_hex :: "buffer \<Rightarrow> string" where
  "toString_hex b =
     concat (map (\<lambda>c. [hex_digit ((of_char c :: nat) div 16), hex_digit ((of_char c :: nat) mod 16)]) b)"

text \<open>\<^verbatim>\<open>generateSessionToken\<close>: the hexadecimal text of the 32 bytes that
  \<^verbatim>\<open>randomBytes(32)\<close> returns, which are the argument here.\<close>

definition generateSessionToken :: "buffer \<Rightarrow> string" where
  "generateSessionToken randomBytes = toString_hex randomBytes"

text \<open>\<^verbatim>\<open>crypto.timingSafeEqual\<close> throws a RangeError on buffers of different byte
  length, and compares the bytes otherwise.\<close>

definition timingSafeEqual :: "buffer \<Rightarrow> buffer \<Rightarrow> js_error + bool" where
  "timingSafeEqual a b = (if length a \<noteq> length b then Inl RangeError else Inr (a = b))"

text \<open>
  \<^verbatim>\<open>crypto.pbkdf2Sync(password, salt, iterations, keylen, 'sha256')\<close> is a function of
  the Node.js runtime. The key derivation PBKDF2-HMAC-SHA256 itself is the parameter
  \<open>kdf\<close> (password, salt, iterations, key length); the argument checks of the runtime
  are modelled: the salt must be a value, the iteration count an integer from 1 to
  \<open>2\<^sup>3\<^sup>1 - 1\<close>.
\<close>

type_synonym kdf = "string \<Rightarrow> string \<Rightarrow> nat \<Rightarrow> nat \<Rightarrow> buffer"

definition pbkdf2Sync ::
  "kdf \<Rightarrow> string \<Rightarrow> string option \<Rightarrow> int option \<Rightarrow> nat \<Rightarrow> js_error + buffer" where
  "pbkdf2Sync kdf password salt iterations keylen =
     (case salt of
        None \<Rightarrow> Inl TypeError
      | Some sl \<Rightarrow>
          (case iterations of
             None \<Rightarrow> Inl RangeError
           | Some n \<Rightarrow>
               if n < 1 \<or> 2147483647 < n then Inl RangeError
               else Inr (kdf password sl (nat n) keylen)))"

text \<open>The body of the \<^verbatim>\<open>try\<close> block of step 1 of \<^verbatim>\<open>verifyPassword\<close>: \<open>Inl\<close> is an
  exception on its way to the \<^verbatim>\<open>catch\<close>.\<close>

definition verifyPassword_hash :: "kdf \<Rightarrow> string \<Rightarrow> string \<Rightarrow> js_error + bool" where
  "verifyPassword_hash kdf hashedConfig password =
     (let parts = split_on CHR '':'' hashedConfig;
          salt = nth_opt parts 0;
          iterations = nth_opt parts 1;
          hash = nth_opt parts 2
      in case pbkdf2Sync kdf password salt (parseInt iterations) 32 of
           Inl e \<Rightarrow> Inl e
         | Inr key \<Rightarrow>
             (let derived = toString_hex key
              in case Buffer_from_hex (Some derived) of
                   Inl e \<Rightarrow> Inl e
                 | Inr derivedBuf \<Rightarrow>
                     (case Buffer_from_hex hash of
                        Inl e \<Rightarrow> Inl e
                      | Inr hashBuf \<Rightarrow> timingSafeEqual derivedBuf hashBuf)))"

text \<open>Step 2 of \<^verbatim>\<open>verifyPassword\<close>, the comparison with the plaintext password.\<close>

definition verifyPassword_plain :: "env \<Rightarrow> string \<Rightarrow> js_error + bool" where
  "verifyPassword_plain e password =
     (case CLAWSUITE_PASSWORD e of
        None \<Rightarrow> Inr False
      | Some configured \<Rightarrow>
          if configured = [] then Inr False
          else
            (let passwordBuf = Buffer_from_utf8 password;
                 configuredBuf = Buffer_from_utf8 configured
             in if length passwordBuf \<noteq> length configuredBuf then Inr False
                else (case timingSafeEqual passwordBuf configuredBuf of
                        Inl _ \<Rightarrow> Inr False
                      | Inr b \<Rightarrow> Inr b)))"

text \<open>\<^verbatim>\<open>verifyPassword\<close>: the \<^verbatim>\<open>catch\<close> of step 1 is empty, so an exception of the
  hash path leads on to step 2, as does a descriptor that is missing, empty or without a
  colon.\<close>

definition verifyPassword :: "kdf \<Rightarrow> env \<Rightarrow> string \<Rightarrow> js_error + bool" where
  "verifyPassword kdf e password =
     (case CLAWSUITE_PASSWORD_HASH e of
        None \<Rightarrow> verifyPassword_plain e password
      | Some hashedConfig \<Rightarrow>
          if hashedConfig \<noteq> [] \<and> CHR '':'' \<in> set hashedConfig then
            (case verifyPassword_hash kdf hashedConfig password of
               Inr b \<Rightarrow> Inr b
             | Inl _ \<Rightarrow> verifyPassword_plain e password)
          else verifyPassword_plain e password)"

section \<open>Cookies, CSRF and the request gate (auth-middleware.ts)\<close>

text \<open>The loop over the cookies: the first one that starts with the prefix gives its
  remainder.\<close>

fun find_cookie :: "string \<Rightarrow> string list \<Rightarrow> string option" where
  "find_cookie p [] = None"
| "find_cookie p (cookie # cookies) =
     (if startsWith cookie p then Some (drop (length p) cookie) else find_cookie p cookies)"

definition getSessionTokenFromCookie :: "string option \<Rightarrow> string option" where
  "getSessionTokenFromCookie cookieHeader =
     (case cookieHeader of
        None \<Rightarrow> None
      | Some h \<Rightarrow>
          if h = [] then None
          else find_cookie ''clawsuite-auth='' (map trim (split_on CHR '';'' h)))"

definition isAuthenticated :: "env \<Rightarrow> int \<Rightarrow> request \<Rightarrow> sessions \<Rightarrow> bool \<times> sessions" where
  "isAuthenticated e now request s =
     (if \<not> isPasswordProtectionEnabled e then (True, s)
      else
        (let cookieHeader = req_headers request ''cookie'';
             token = getSessionTokenFromCookie cookieHeader
         in case token of
              None \<Rightarrow> (False, s)
            | Some t \<Rightarrow> if t = [] then (False, s) else isValidSessionToken now t s))"

definition CSRF_COOKIE_NAME :: string where
  "CSRF_COOKIE_NAME = ''clawsuite-csrf''"

definition CSRF_HEADER_NAME :: string where
  "CSRF_HEADER_NAME = ''x-csrf-token''"

definition getCsrfTokenFromCookie :: "string option \<Rightarrow> string option" where
  "getCsrfTokenFromCookie cookieHeader =
     (case cookieHeader of
        None \<Rightarrow> None
      | Some h \<Rightarrow>
          if h = [] then None
          else find_cookie (CSRF_COOKIE_NAME @ ''='') (map trim (split_on CHR '';'' h)))"

definition validateCsrf :: "env \<Rightarrow> request \<Rightarrow> bool" where
  "validateCsrf e request =
     (let m = toUpperCase (req_method request)
      in if m = ''GET'' \<or> m = ''HEAD'' \<or> m = ''OPTIONS'' then True
         else if \<not> isPasswordProtectionEnabled e then True
         else
           (let cookieToken = getCsrfTokenFromCookie (req_headers request ''cookie'');
                headerToken = req_headers request CSRF_HEADER_NAME
            in if \<not> truthy cookieToken \<or> \<not> truthy headerToken then False
               else
                 (case (cookieToken, headerToken) of
                    (Some c, Some h) \<Rightarrow>
                      (let cookieBuf = Buffer_from_utf8 c;
                           headerBuf = Buffer_from_utf8 h
                       in if length cookieBuf \<noteq> length headerBuf then False
                          else (case timingSafeEqual cookieBuf headerBuf of
                                  Inl _ \<Rightarrow> False
                                | Inr b \<Rightarrow> b))
                  | _ \<Rightarrow> False)))"

definition unauthorized :: response where
  \<open>unauthorized =
     \<lparr>status = 401, body = ''{"ok":false,"error":"Unauthorized"}'',
      contentType = ''application/json''\<rparr>\<close>

definition csrf_failed :: response where
  \<open>csrf_failed =
     \<lparr>status = 403, body = ''{"ok":false,"error":"CSRF validation failed"}'',
      contentType = ''application/json''\<rparr>\<close>

definition requireAuth :: "env \<Rightarrow> int \<Rightarrow> request \<Rightarrow> sessions \<Rightarrow> response option \<times> sessions" where
  "requireAuth e now request s =
     (let (authenticated, s') = isAuthenticated e now request s
      in if \<not> authenticated then (Some unauthorized, s')
         else if \<not> validateCsrf e request then (Some csrf_failed, s')
         else (None, s'))"

section \<open>Rate limiter (rate-limit module)\<close>

text \<open>\<^verbatim>\<open>store\<close> is a \<^verbatim>\<open>Map<string, { timestamps: number[] }>\<close>: an association
  list from keys to their timestamps, oldest first.\<close>

type_synonym limiter = "(string \<times> int list) list"

definition rateLimit :: "int \<Rightarrow> string \<Rightarrow> int \<Rightarrow> int \<Rightarrow> limiter \<Rightarrow> bool \<times> limiter" where
  "rateLimit now key maxRequests windowMs store =
     (let store1 = (case map_of store key of
                      None \<Rightarrow> AList.update key [] store
                    | Some _ \<Rightarrow> store);
          entry = (case map_of store key of None \<Rightarrow> [] | Some ts \<Rightarrow> ts);
          timestamps = filter (\<lambda>t. now - t < windowMs) entry
      in if int (length timestamps) \<ge> maxRequests
         then (False, AList.update key timestamps store1)
         else (True, AList.update key (timestamps @ [now]) store1))"

text \<open>The callback of \<^verbatim>\<open>setInterval\<close>, run at clock reading \<open>now\<close>: the loop over the
  entries of the map.\<close>

fun cleanup :: "int \<Rightarrow> limiter \<Rightarrow> limiter" where
  "cleanup now [] = []"
| "cleanup now ((key, ts) # rest) =
     (let timestamps = filter (\<lambda>t. now - t < 120000) ts
      in if length timestamps = 0 then cleanup now rest
         else (key, timestamps) # cleanup now rest)"

definition getClientIp :: "env \<Rightarrow> request \<Rightarrow> string" where
  "getClientIp e request =
     (let trustedProxy = map_option trim (TRUSTED_PROXY_IP e)
      in case when_truthy trustedProxy of
           None \<Rightarrow> ''local''
         | Some _ \<Rightarrow>
             (case when_truthy (req_headers request ''x-real-ip'') of
                Some realIp \<Rightarrow> trim realIp
              | None \<Rightarrow>
                  (case when_truthy (req_headers request ''x-forwarded-for'') of
                     Some forwarded \<Rightarrow>
                       (case split_on CHR '','' forwarded of
                          [] \<Rightarrow> ''local''
                        | ip # _ \<Rightarrow> trim ip)
                   | None \<Rightarrow> ''local'')))"

text \<open>The timestamps the limiter holds for a key (none for a key it has no entry for),
  and a run of calls for one key at successive clock readings, with the answers.\<close>

definition timestamps_of :: "limiter \<Rightarrow> string \<Rightarrow> int list" where
  "timestamps_of store key = (case map_of store key of None \<Rightarrow> [] | Some ts \<Rightarrow> ts)"

fun rateLimit_calls ::
  "int list \<Rightarrow> string \<Rightarrow> int \<Rightarrow> int \<Rightarrow> limiter \<Rightarrow> bool list \<times> limiter" where
  "rateLimit_calls [] key maxRequests windowMs store = ([], store)"
| "rateLimit_calls (now # nows) key maxRequests windowMs store =
     (let (r, store1) = rateLimit now key maxRequests windowMs store;
          (rs, store2) = rateLimit_calls nows key maxRequests windowMs store1
      in (r # rs, store2))"

section \<open>Configurations and requests of the worked examples\<close>

definition example_kdf :: kdf where
  "example_kdf password salt iterations keylen = replicate keylen (CHR 0x00)"

definition env_open :: env where
  "env_open =
     \<lparr>CLAWSUITE_PASSWORD = None, CLAWSUITE_PASSWORD_HASH = None, TRUSTED_PROXY_IP = None\<rparr>"

definition env_plain :: env where
  "env_plain =
     \<lparr>CLAWSUITE_PASSWORD = Some ''pw'', CLAWSUITE_PASSWORD_HASH = None,
      TRUSTED_PROXY_IP = None\<rparr>"

definition env_bad_hash :: env where
  "env_bad_hash =
     \<lparr>CLAWSUITE_PASSWORD = None, CLAWSUITE_PASSWORD_HASH = Some ''salt:abc:00'',
      TRUSTED_PROXY_IP = None\<rparr>"

definition env_bad_hash_and_plain :: env where
  "env_bad_hash_and_plain =
     \<lparr>CLAWSUITE_PASSWORD = Some ''pw'', CLAWSUITE_PASSWORD_HASH = Some ''salt:abc:00'',
      TRUSTED_PROXY_IP = None\<rparr>"

definition env_proxy :: env where
  "env_proxy =
     \<lparr>CLAWSUITE_PASSWORD = None, CLAWSUITE_PASSWORD_HASH = None,
      TRUSTED_PROXY_IP = Some ''10.0.0.1''\<rparr>"

definition mk_request :: "string \<Rightarrow> (string \<times> string) list \<Rightarrow> request" where
  "mk_request m hs = \<lparr>req_method = m, req_headers = map_of hs\<rparr>"

section \<open>Properties of the session store\<close>

lemma map_of_storeSessionToken:
  "map_of (storeSessionToken now token s) token = Some (now + SESSION_TTL_MS)"
  by (simp add: storeSessionToken_def Let_def update_conv')

text \<open>
  Claim C5. Storing a token and checking it at once (or at any clock reading up to
  its expiry) answers true; once the clock exceeds the expiry recorded at store time,
  creation time plus the 30-day TTL, the check answers false and the entry is gone;
  a token that is not in the store is invalid. The clock reads a time at or after the
  epoch when the token is stored.
\<close>

theorem store_then_isValid:
  assumes "0 \<le> now"
  shows "(now \<le> now' \<and> now' \<le> now + SESSION_TTL_MS \<longrightarrow>
            isValidSessionToken now' token (storeSessionToken now token s)
              = (True, storeSessionToken now token s))
       \<and> (now + SESSION_TTL_MS < now' \<longrightarrow>
            isValidSessionToken now' token (storeSessionToken now token s)
              = (False, AList.delete token (storeSessionToken now token s))
            \<and> map_of (snd (isValidSessionToken now' token (storeSessionToken now token s))) token
              = None)
       \<and> (map_of s' token = None \<longrightarrow> isValidSessionToken now' token s' = (False, s'))
       \<and> map_of (storeSessionToken now token s) token = Some (now + 2592000000)"
proof -
  have ttl: "SESSION_TTL_MS = 2592000000"
    by (simp add: SESSION_TTL_MS_def)
  have nz: "now + SESSION_TTL_MS \<noteq> 0"
    using assms ttl by simp
  have valid: "now \<le> now' \<and> now' \<le> now + SESSION_TTL_MS \<longrightarrow>
      isValidSessionToken now' token (storeSessionToken now token s)
        = (True, storeSessionToken now token s)"
    using nz by (simp add: isValidSessionToken_def map_of_storeSessionToken)
  have expired: "now + SESSION_TTL_MS < now' \<longrightarrow>
      isValidSessionToken now' token (storeSessionToken now token s)
        = (False, AList.delete token (storeSessionToken now token s))
      \<and> map_of (snd (isValidSessionToken now' token (storeSessionToken now token s))) token
        = None"
    using nz by (simp add: isValidSessionToken_def map_of_storeSessionToken delete_conv')
  have absent: "map_of s' token = None \<longrightarrow> isValidSessionToken now' token s' = (False, s')"
    by (simp add: isValidSessionToken_def)
  have stored: "map_of (storeSessionToken now token s) token = Some (now + 2592000000)"
    using ttl by (simp add: map_of_storeSessionToken)
  from valid expired absent stored show ?thesis
    by blast
qed

theorem store_then_isValid_witness:
  "(0::int) \<le> 5
   \<and> isValidSessionToken 5 ''ab'' (storeSessionToken 5 ''ab'' [])
       = (True, [(''ab'', 2592000005)])
   \<and> isValidSessionToken 2592000006 ''ab'' (storeSessionToken 5 ''ab'' []) = (False, [])
   \<and> isValidSessionToken 7 ''cd'' [(''ab'', 2592000005)] = (False, [(''ab'', 2592000005)])"
proof -
  have h: "(0::int) \<le> 5"
    by simp
  have a: "isValidSessionToken 5 ''ab'' (storeSessionToken 5 ''ab'' [])
             = (True, storeSessionToken 5 ''ab'' [])"
    using store_then_isValid [OF h, where now' = 5 and token = "''ab''" and s = "[]"]
    by (simp add: SESSION_TTL_MS_def)
  have b: "isValidSessionToken 2592000006 ''ab'' (storeSessionToken 5 ''ab'' [])
             = (False, AList.delete ''ab'' (storeSessionToken 5 ''ab'' []))"
    using store_then_isValid [OF h, where now' = 2592000006 and token = "''ab''" and s = "[]"]
    by (simp add: SESSION_TTL_MS_def)
  have c: "isValidSessionToken 7 ''cd'' [(''ab'', 2592000005)] = (False, [(''ab'', 2592000005)])"
    using store_then_isValid [OF h, where now' = 7 and token = "''cd''"
        and s' = "[(''ab'', 2592000005)]"]
    by simp
  have st: "storeSessionToken 5 ''ab'' [] = [(''ab'', 2592000005)]"
    by (simp add: storeSessionToken_def MAX_SESSIONS_def SESSION_TTL_MS_def oldestKey_def)
  from a b c st show ?thesis
    by simp
qed

lemma update_new: "k \<notin> fst ` set al \<Longrightarrow> AList.update k v al = al @ [(k, v)]"
  by (induction al) auto

lemma length_update_le: "length (AList.update k v al) \<le> Suc (length al)"
  by (induction al) auto

lemma keys_entries: "map fst (entries ps) = map snd ps"
  by (simp add: entries_def case_prod_unfold comp_def)

lemma session_run_append: "session_run (xs @ ys) s = session_run ys (session_run xs s)"
  by (induction xs arbitrary: s) simp_all

lemma stores_below_capacity:
  "distinct (map snd ps) \<Longrightarrow> snd ` set ps \<inter> fst ` set s = {} \<Longrightarrow>
   length s + length ps \<le> MAX_SESSIONS \<Longrightarrow>
   session_run (stores ps) s = s @ entries ps"
proof (induction ps arbitrary: s)
  case Nil
  then show ?case by (simp add: stores_def entries_def)
next
  case (Cons p ps)
  obtain now token where p: "p = (now, token)" by (cases p)
  have below: "\<not> MAX_SESSIONS \<le> length s"
    using Cons.prems(3) by simp
  have new: "token \<notin> fst ` set s"
    using Cons.prems(2) p by auto
  have step: "storeSessionToken now token s = s @ [(token, now + SESSION_TTL_MS)]"
    using below new by (simp add: storeSessionToken_def update_new)
  have "session_run (stores ps) (s @ [(token, now + SESSION_TTL_MS)])
          = (s @ [(token, now + SESSION_TTL_MS)]) @ entries ps"
  proof (rule Cons.IH)
    show "distinct (map snd ps)" using Cons.prems(1) by simp
    show "snd ` set ps \<inter> fst ` set (s @ [(token, now + SESSION_TTL_MS)]) = {}"
      using Cons.prems(1,2) p by auto
    show "length (s @ [(token, now + SESSION_TTL_MS)]) + length ps \<le> MAX_SESSIONS"
      using Cons.prems(3) by simp
  qed
  then show ?case
    using p step by (simp add: stores_def entries_def)
qed

lemma stores_fill:
  "distinct (map snd ps) \<Longrightarrow> length ps \<le> MAX_SESSIONS \<Longrightarrow> session_run (stores ps) [] = entries ps"
  using stores_below_capacity [of ps "[]"] by simp

lemma distinct_example_tokens: "distinct (map snd (example_tokens n))"
proof -
  have "map snd (example_tokens n) = map (\<lambda>i. replicate (Suc i) (CHR ''a'')) [0..<n]"
    by (simp add: example_tokens_def comp_def)
  moreover have "inj_on (\<lambda>i. replicate (Suc i) (CHR ''a'')) (set [0..<n])"
    by (rule inj_onI) (metis length_replicate nat.inject)
  ultimately show ?thesis
    by (simp add: distinct_map)
qed

lemma example_full:
  "session_run (stores (example_tokens 1000)) [] = entries (example_tokens 1000)"
proof (rule stores_fill)
  show "distinct (map snd (example_tokens 1000))"
    by (rule distinct_example_tokens)
  show "length (example_tokens 1000) \<le> MAX_SESSIONS"
    by (simp add: example_tokens_def MAX_SESSIONS_def)
qed

text \<open>A generated token is 64 characters long, so never the empty string.\<close>

lemma length_toString_hex: "length (toString_hex b) = 2 * length b"
  by (induction b) (simp_all add: toString_hex_def)

lemma generateSessionToken_not_empty:
  "length randomBytes = 32 \<Longrightarrow>
     length (generateSessionToken randomBytes) = 64 \<and> generateSessionToken randomBytes \<noteq> []"
  using length_toString_hex [of randomBytes] by (auto simp: generateSessionToken_def)

lemma storeSessionToken_within_capacity:
  assumes "length s \<le> MAX_SESSIONS" "oldestKey s \<noteq> Some []"
  shows "length (storeSessionToken now token s) \<le> MAX_SESSIONS"
proof (cases "MAX_SESSIONS \<le> length s")
  case False
  then have "storeSessionToken now token s = AList.update token (now + SESSION_TTL_MS) s"
    by (simp add: storeSessionToken_def)
  then show ?thesis
    using False length_update_le [of token "now + SESSION_TTL_MS" s] by simp
next
  case True
  then have "s \<noteq> []"
    by (auto simp: MAX_SESSIONS_def)
  then obtain k v rest where s: "s = (k, v) # rest"
    by (cases s) auto
  with assms(2) have k: "k \<noteq> []"
    by (simp add: oldestKey_def)
  have "length (AList.delete k s) \<le> length rest"
    using s length_delete_le [of k rest] by simp
  moreover have "storeSessionToken now token s
      = AList.update token (now + SESSION_TTL_MS) (AList.delete k s)"
    using True s k by (simp add: storeSessionToken_def oldestKey_def)
  ultimately show ?thesis
    using assms(1) s length_update_le [of token "now + SESSION_TTL_MS" "AList.delete k s"]
    by simp
qed

lemma store_at_capacity_evicts:
  assumes "distinct (map snd (p # qs))" "MAX_SESSIONS \<le> length (p # qs)" "snd p \<noteq> []"
    "token \<notin> snd ` set (p # qs)"
  shows "storeSessionToken now token (entries (p # qs)) = entries (qs @ [(now, token)])"
proof -
  obtain n k where p: "p = (n, k)"
    by (cases p)
  have old: "oldestKey (entries (p # qs)) = Some k"
    using p by (simp add: oldestKey_def entries_def)
  have "set (map fst (entries qs)) = set (map snd qs)"
    by (simp only: keys_entries)
  then have keys: "fst ` set (entries qs) = snd ` set qs"
    by simp
  have "k \<notin> fst ` set (entries qs)"
    using assms(1) p keys by simp
  then have del: "AList.delete k (entries (p # qs)) = entries qs"
    using p by (simp add: entries_def)
  have "token \<notin> fst ` set (entries qs)"
    using assms(4) keys by simp
  then have "AList.update token (now + SESSION_TTL_MS) (entries qs)
               = entries qs @ [(token, now + SESSION_TTL_MS)]"
    by (rule update_new)
  then show ?thesis
    using old del assms(2,3) p by (simp add: storeSessionToken_def entries_def)
qed

lemma stores_one_over_capacity:
  assumes "distinct (map snd (p # ps))" "length ps = MAX_SESSIONS" "snd p \<noteq> []"
  shows "session_run (stores (p # ps)) [] = entries ps"
proof -
  have "ps \<noteq> []"
    using assms(2) by (auto simp: MAX_SESSIONS_def)
  then obtain qs q where ps: "ps = qs @ [q]"
    by (metis rev_exhaust)
  obtain n token where q: "q = (n, token)"
    by (cases q)
  have d: "distinct (map snd (p # qs))"
    using assms(1) ps by simp
  have len: "length (p # qs) = MAX_SESSIONS"
    using assms(2) ps by simp
  have fill: "session_run (stores (p # qs)) [] = entries (p # qs)"
    using d len by (intro stores_fill) simp_all
  have new: "token \<notin> snd ` set (p # qs)"
    using assms(1) ps q by auto
  have "storeSessionToken n token (entries (p # qs)) = entries (qs @ [(n, token)])"
    using d len assms(3) new by (intro store_at_capacity_evicts) simp_all
  moreover have "stores (p # ps) = stores (p # qs) @ [(n, Store token)]"
    using ps q by (simp add: stores_def)
  ultimately show ?thesis
    using fill ps q by (simp add: session_run_append)
qed

lemma example_tokens_tl:
  "example_tokens (Suc (Suc n)) = (0, ''a'') # tl (example_tokens (Suc (Suc n)))
   \<and> (0, ''aa'') \<in> set (tl (example_tokens (Suc (Suc n))))"
  by (simp add: example_tokens_def upt_conv_Cons del: upt_Suc)

text \<open>
  Claim C4. \<open>MAX_SESSIONS + 1\<close> distinct tokens are stored into the empty store, each
  at a clock reading at or after the epoch. Then the earliest-inserted token, and no
  other, has been evicted: a check of it answers false, a check of any of the other
  \<open>MAX_SESSIONS\<close> tokens made before its expiry answers true, and the store holds
  exactly those tokens, in the order they were stored. The tokens are session tokens,
  which are never the empty string (\<^verbatim>\<open>generateSessionToken\<close> yields 64 hexadecimal
  characters); the proof needs this of the earliest token only.
\<close>

theorem eviction_of_earliest:
  assumes "distinct (map snd (p # ps))" "length ps = MAX_SESSIONS" "snd p \<noteq> []"
    and "\<forall>(n, t)\<in>set ps. 0 \<le> n \<and> now \<le> n + SESSION_TTL_MS"
  shows "fst (isValidSessionToken now (snd p) (session_run (stores (p # ps)) [])) = False
       \<and> (\<forall>(n, t)\<in>set ps.
            fst (isValidSessionToken now t (session_run (stores (p # ps)) [])) = True)
       \<and> map fst (session_run (stores (p # ps)) []) = map snd ps
       \<and> length (session_run (stores (p # ps)) []) = MAX_SESSIONS
       \<and> MAX_SESSIONS = 1000"
proof -
  have run: "session_run (stores (p # ps)) [] = entries ps"
    using assms(1-3) by (rule stores_one_over_capacity)
  have "set (map fst (entries ps)) = set (map snd ps)"
    by (simp only: keys_entries)
  then have keys: "fst ` set (entries ps) = snd ` set ps"
    by simp
  have "snd p \<notin> fst ` set (entries ps)"
    using assms(1) keys by simp
  then have "map_of (entries ps) (snd p) = None"
    by (simp add: map_of_eq_None_iff)
  then have evicted:
    "fst (isValidSessionToken now (snd p) (session_run (stores (p # ps)) [])) = False"
    by (simp add: run isValidSessionToken_def)
  have kept: "\<forall>(n, t)\<in>set ps.
          fst (isValidSessionToken now t (session_run (stores (p # ps)) [])) = True"
  proof (clarify)
    fix n t
    assume nt: "(n, t) \<in> set ps"
    have "distinct (map fst (entries ps))"
      using assms(1) keys_entries [of ps] by simp
    moreover have "(t, n + SESSION_TTL_MS) \<in> set (entries ps)"
      using nt by (force simp: entries_def)
    ultimately have "map_of (entries ps) t = Some (n + SESSION_TTL_MS)"
      by (rule map_of_is_SomeI)
    moreover have "0 \<le> n \<and> now \<le> n + SESSION_TTL_MS"
      using assms(4) nt by auto
    ultimately show "fst (isValidSessionToken now t (session_run (stores (p # ps)) [])) = True"
      by (simp add: run isValidSessionToken_def SESSION_TTL_MS_def)
  qed
  have order: "map fst (session_run (stores (p # ps)) []) = map snd ps"
    by (simp add: run keys_entries)
  have size: "length (session_run (stores (p # ps)) []) = MAX_SESSIONS"
    using assms(2) by (simp add: run entries_def)
  have cap: "MAX_SESSIONS = 1000"
    by (simp add: MAX_SESSIONS_def)
  from evicted kept order size cap show ?thesis
    by blast
qed

theorem eviction_of_earliest_witness:
  "length (example_tokens 1001) = 1001
   \<and> fst (isValidSessionToken 0 ''a'' (session_run (stores (example_tokens 1001)) [])) = False
   \<and> fst (isValidSessionToken 0 ''aa'' (session_run (stores (example_tokens 1001)) [])) = True
   \<and> length (session_run (stores (example_tokens 1001)) []) = 1000"
proof -
  define ps where "ps = tl (example_tokens 1001)"
  have "Suc (Suc 999) = 1001"
    by simp
  then have cons: "example_tokens 1001 = (0, ''a'') # ps" and second: "(0, ''aa'') \<in> set ps"
    using example_tokens_tl [of 999] by (simp_all add: ps_def)
  have d: "distinct (map snd ((0, ''a'') # ps))"
    using distinct_example_tokens [of 1001] cons by simp
  have n: "length (example_tokens 1001) = 1001"
    by (simp add: example_tokens_def)
  then have len: "length ps = MAX_SESSIONS"
    by (simp add: ps_def MAX_SESSIONS_def)
  have first: "snd (0::int, ''a'') \<noteq> []"
    by simp
  have "\<forall>(n, t)\<in>set (example_tokens 1001). 0 \<le> n \<and> 0 \<le> n + SESSION_TTL_MS"
    by (auto simp: example_tokens_def SESSION_TTL_MS_def)
  then have clock: "\<forall>(n, t)\<in>set ps. 0 \<le> n \<and> 0 \<le> n + SESSION_TTL_MS"
    unfolding cons by simp
  have all: "fst (isValidSessionToken 0 (snd (0::int, ''a''))
                (session_run (stores ((0, ''a'') # ps)) [])) = False
       \<and> (\<forall>(n, t)\<in>set ps.
            fst (isValidSessionToken 0 t (session_run (stores ((0, ''a'') # ps)) [])) = True)
       \<and> map fst (session_run (stores ((0, ''a'') # ps)) []) = map snd ps
       \<and> length (session_run (stores ((0, ''a'') # ps)) []) = MAX_SESSIONS
       \<and> MAX_SESSIONS = 1000"
    using d len first clock by (rule eviction_of_earliest)
  then have a: "fst (isValidSessionToken 0 ''a'' (session_run (stores (example_tokens 1001)) []))
                  = False"
    by (simp add: cons)
  from all second
  have b: "fst (isValidSessionToken 0 ''aa'' (session_run (stores (example_tokens 1001)) []))
             = True"
    unfolding cons by blast
  from all have c: "length (session_run (stores (example_tokens 1001)) []) = 1000"
    unfolding cons by simp
  from n a b c show ?thesis
    by blast
qed

text \<open>The state of a store that holds session tokens: distinct keys, none of them the
  empty string, at most \<open>MAX_SESSIONS\<close> of them. Every step keeps it.\<close>

lemma sessions_inv_delete:
  assumes "sessions_inv s"
  shows "sessions_inv (AList.delete k s)"
proof -
  have "distinct (map fst (AList.delete k s))"
    using assms by (simp add: sessions_inv_def distinct_delete)
  moreover have "fst ` set (AList.delete k s) \<subseteq> fst ` set s"
    by (rule dom_delete_subset)
  then have "[] \<notin> fst ` set (AList.delete k s)"
    using assms unfolding sessions_inv_def by blast
  moreover have "length (AList.delete k s) \<le> MAX_SESSIONS"
    using assms length_delete_le [of k s] by (simp add: sessions_inv_def)
  ultimately show ?thesis
    by (simp add: sessions_inv_def)
qed

lemma sessions_inv_update:
  assumes "sessions_inv s1" "token \<noteq> []"
    and "length (AList.update token v s1) \<le> MAX_SESSIONS"
  shows "sessions_inv (AList.update token v s1)"
proof -
  have "distinct (map fst (AList.update token v s1))"
    using assms(1) by (simp add: sessions_inv_def distinct_update)
  moreover have "[] \<notin> fst ` set (AList.update token v s1)"
    using assms(1,2) by (simp add: sessions_inv_def dom_update)
  ultimately show ?thesis
    using assms(3) by (simp add: sessions_inv_def)
qed

lemma sessions_inv_store:
  assumes "sessions_inv s" "token \<noteq> []"
  shows "sessions_inv (storeSessionToken now token s)"
proof -
  from assms(1) have ne: "[] \<notin> fst ` set s" and len: "length s \<le> MAX_SESSIONS"
    by (simp_all add: sessions_inv_def)
  have "oldestKey s \<noteq> Some []"
  proof (cases s)
    case Nil
    then show ?thesis
      by (simp add: oldestKey_def)
  next
    case (Cons e rest)
    with ne have "fst e \<noteq> []"
      by auto
    with Cons show ?thesis
      by (cases e) (simp add: oldestKey_def)
  qed
  with len have bound: "length (storeSessionToken now token s) \<le> MAX_SESSIONS"
    by (rule storeSessionToken_within_capacity)
  show ?thesis
  proof (cases "MAX_SESSIONS \<le> length s")
    case False
    then have eq: "storeSessionToken now token s = AList.update token (now + SESSION_TTL_MS) s"
      by (simp add: storeSessionToken_def)
    show ?thesis
      unfolding eq using assms bound [unfolded eq] by (rule sessions_inv_update)
  next
    case True
    then have "s \<noteq> []"
      by (auto simp: MAX_SESSIONS_def)
    then obtain k v rest where s: "s = (k, v) # rest"
      by (cases s) auto
    with ne have k: "k \<noteq> []"
      by auto
    have eq: "storeSessionToken now token s
        = AList.update token (now + SESSION_TTL_MS) (AList.delete k s)"
      using True s k by (simp add: storeSessionToken_def oldestKey_def)
    have "sessions_inv (AList.delete k s)"
      using assms(1) by (rule sessions_inv_delete)
    then show ?thesis
      unfolding eq using assms(2) bound [unfolded eq] by (rule sessions_inv_update)
  qed
qed

lemma sessions_inv_isValid: "sessions_inv s \<Longrightarrow> sessions_inv (snd (isValidSessionToken now t s))"
  by (simp add: isValidSessionToken_def sessions_inv_delete split: option.splits)

lemma sessions_inv_revoke: "sessions_inv s \<Longrightarrow> sessions_inv (revokeSessionToken t s)"
  by (simp add: revokeSessionToken_def sessions_inv_delete)

lemma sessions_inv_run:
  "sessions_inv s \<Longrightarrow> \<forall>(n, op)\<in>set run. op \<noteq> Store [] \<Longrightarrow> sessions_inv (session_run run s)"
proof (induction run arbitrary: s)
  case Nil
  then show ?case
    by simp
next
  case (Cons x run)
  obtain n op where x: "x = (n, op)"
    by (cases x)
  with Cons.prems(2) have op: "op \<noteq> Store []"
    by simp
  have "sessions_inv (session_step (n, op) s)"
  proof (cases op)
    case (Store token)
    with op have "token \<noteq> []"
      by simp
    with Cons.prems(1) Store show ?thesis
      by (simp add: sessions_inv_store)
  next
    case (IsValid t)
    with Cons.prems(1) show ?thesis
      by (simp add: sessions_inv_isValid)
  next
    case (Revoke t)
    with Cons.prems(1) show ?thesis
      by (simp add: sessions_inv_revoke)
  qed
  moreover have "\<forall>(n, op)\<in>set run. op \<noteq> Store []"
    using Cons.prems(2) by simp
  ultimately have "sessions_inv (session_run run (session_step (n, op) s))"
    by (rule Cons.IH)
  then show ?case
    using x by simp
qed

lemma store_at_capacity:
  assumes "sessions_inv s" "length s = MAX_SESSIONS"
  shows "storeSessionToken now token s = AList.update token (now + SESSION_TTL_MS) (tl s)"
proof -
  from assms(2) have "s \<noteq> []"
    by (auto simp: MAX_SESSIONS_def)
  then obtain k v rest where s: "s = (k, v) # rest"
    by (cases s) auto
  from assms(1) s have k: "k \<noteq> []" "k \<notin> fst ` set rest"
    by (auto simp: sessions_inv_def)
  then have "AList.delete k s = rest"
    using s by simp
  then show ?thesis
    using assms(2) s k(1) by (simp add: storeSessionToken_def oldestKey_def)
qed

text \<open>
  Claim C8. The store never holds more than \<open>MAX_SESSIONS = 1000\<close> entries. From
  every state of the store that holds session tokens (distinct keys, none the empty
  string, at most \<open>MAX_SESSIONS\<close> of them), a store of a session token, a check and a
  revocation each lead to such a state again; a store made at capacity first removes
  the earliest-inserted entry and then adds the new one; and so every run of steps
  from the empty store stays within the capacity. A session token is never the empty
  string (\<^verbatim>\<open>generateSessionToken\<close> yields 64 hexadecimal characters).
\<close>

theorem session_store_bounded:
  "(sessions_inv s \<and> token \<noteq> [] \<longrightarrow>
      sessions_inv (storeSessionToken now token s)
      \<and> length (storeSessionToken now token s) \<le> MAX_SESSIONS
      \<and> sessions_inv (snd (isValidSessionToken now t s))
      \<and> length (snd (isValidSessionToken now t s)) \<le> length s
      \<and> sessions_inv (revokeSessionToken t s)
      \<and> length (revokeSessionToken t s) \<le> length s
      \<and> (length s = MAX_SESSIONS \<longrightarrow>
           storeSessionToken now token s
             = AList.update token (now + SESSION_TTL_MS) (tl s)))
   \<and> ((\<forall>(n, op)\<in>set run. op \<noteq> Store []) \<longrightarrow>
        length (session_run run []) \<le> MAX_SESSIONS)
   \<and> MAX_SESSIONS = 1000"
proof (intro conjI impI)
  assume h: "sessions_inv s \<and> token \<noteq> []"
  then show st: "sessions_inv (storeSessionToken now token s)"
    by (simp add: sessions_inv_store)
  then show "length (storeSessionToken now token s) \<le> MAX_SESSIONS"
    by (simp add: sessions_inv_def)
  from h show "sessions_inv (snd (isValidSessionToken now t s))"
    by (simp add: sessions_inv_isValid)
  show "length (snd (isValidSessionToken now t s)) \<le> length s"
    by (simp add: isValidSessionToken_def length_delete_le split: option.splits)
  from h show "sessions_inv (revokeSessionToken t s)"
    by (simp add: sessions_inv_revoke)
  show "length (revokeSessionToken t s) \<le> length s"
    by (simp add: revokeSessionToken_def length_delete_le)
  assume "length s = MAX_SESSIONS"
  with h show "storeSessionToken now token s
                 = AList.update token (now + SESSION_TTL_MS) (tl s)"
    by (simp add: store_at_capacity)
next
  assume steps: "\<forall>(n, op)\<in>set run. op \<noteq> Store []"
  have "sessions_inv []"
    by (simp add: sessions_inv_def)
  then have "sessions_inv (session_run run [])"
    using steps by (rule sessions_inv_run)
  then show "length (session_run run []) \<le> MAX_SESSIONS"
    by (simp add: sessions_inv_def)
next
  show "MAX_SESSIONS = 1000"
    by (simp add: MAX_SESSIONS_def)
qed

theorem session_store_bounded_witness:
  "length (entries (example_tokens 1000)) = 1000
   \<and> length (storeSessionToken 0 (replicate 1001 (CHR ''a'')) (entries (example_tokens 1000)))
       \<le> MAX_SESSIONS
   \<and> storeSessionToken 0 (replicate 1001 (CHR ''a'')) (entries (example_tokens 1000))
       = AList.update (replicate 1001 (CHR ''a'')) (0 + SESSION_TTL_MS)
           (tl (entries (example_tokens 1000)))
   \<and> length (session_run (stores (example_tokens 1001)) []) \<le> MAX_SESSIONS"
proof -
  have len: "length (entries (example_tokens 1000)) = 1000"
    by (simp add: entries_def example_tokens_def)
  have "distinct (map fst (entries (example_tokens 1000)))"
    using distinct_example_tokens [of 1000] by (simp add: keys_entries)
  moreover have "[] \<notin> fst ` set (entries (example_tokens 1000))"
    by (auto simp: entries_def example_tokens_def)
  ultimately have inv: "sessions_inv (entries (example_tokens 1000))"
    using len by (simp add: sessions_inv_def MAX_SESSIONS_def)
  have token: "replicate 1001 (CHR ''a'') \<noteq> []"
    by simp
  have full: "length (entries (example_tokens 1000)) = MAX_SESSIONS"
    using len by (simp add: MAX_SESSIONS_def)
  have stores: "\<forall>(n, op)\<in>set (stores (example_tokens 1001)). op \<noteq> Store []"
    by (auto simp: stores_def example_tokens_def)
  from inv token full stores len show ?thesis
    using session_store_bounded [where s = "entries (example_tokens 1000)"
        and token = "replicate 1001 (CHR ''a'')" and now = 0
        and run = "stores (example_tokens 1001)"]
    by blast
qed

lemma step_keeps_entry:
  assumes "map_of s t = Some e" "op \<noteq> IsValid t" "op \<noteq> Revoke t" "op \<noteq> Store t"
    and "length s < MAX_SESSIONS \<or> oldestKey s \<noteq> Some t"
  shows "map_of (session_step (now, op) s) t = Some e"
proof (cases op)
  case (Store u)
  with assms(4) have u: "u \<noteq> t"
    by simp
  define s1 where "s1 =
     (if length s \<ge> MAX_SESSIONS then
        (case oldestKey s of None \<Rightarrow> s | Some k \<Rightarrow> if k \<noteq> [] then AList.delete k s else s)
      else s)"
  have "map_of s1 t = Some e"
    using assms(1,5) by (auto simp: s1_def split: option.splits)
  then have "map_of (AList.update u (now + SESSION_TTL_MS) s1) t = Some e"
    using u by (simp add: update_conv')
  then show ?thesis
    using Store by (simp add: storeSessionToken_def s1_def)
next
  case (IsValid u)
  with assms(2) have "u \<noteq> t"
    by simp
  then show ?thesis
    using IsValid assms(1) by (simp add: isValidSessionToken_def split: option.splits)
next
  case (Revoke u)
  with assms(3) have "u \<noteq> t"
    by simp
  then show ?thesis
    using Revoke assms(1) by (simp add: revokeSessionToken_def)
qed

lemma run_keeps_entry:
  "map_of s t = Some e \<Longrightarrow>
   \<forall>(n, op)\<in>set run. \<exists>u. u \<noteq> t \<and> (op = IsValid u \<or> op = Revoke u) \<Longrightarrow>
   map_of (session_run run s) t = Some e"
proof (induction run arbitrary: s)
  case Nil
  then show ?case
    by simp
next
  case (Cons x run)
  obtain n op where x: "x = (n, op)"
    by (cases x)
  from Cons.prems(2) x obtain u where u: "u \<noteq> t" "op = IsValid u \<or> op = Revoke u"
    by auto
  have "map_of (session_step (n, op) s) t = Some e"
    using Cons.prems(1) u
    by (auto simp: isValidSessionToken_def revokeSessionToken_def split: option.splits)
  moreover have "\<forall>(n, op)\<in>set run. \<exists>u. u \<noteq> t \<and> (op = IsValid u \<or> op = Revoke u)"
    using Cons.prems(2) by simp
  ultimately have "map_of (session_run run (session_step (n, op) s)) t = Some e"
    by (rule Cons.IH)
  then show ?case
    using x by simp
qed

text \<open>
  Claim C9, as it stands, fails: no maintenance task runs for the session store. A
  token stored at clock reading 0 expires at 2592000000; a check of another token at
  5000000000, a revocation at 6000000000 and a store at 7000000000 later, its entry
  is still in the store.
\<close>

theorem no_sweep_of_sessions:
  "session_run [(0, Store ''a''), (5000000000, IsValid ''b''), (6000000000, Revoke ''c''),
                (7000000000, Store ''d'')] []
     = [(''a'', 2592000000), (''d'', 9592000000)]
   \<and> (2592000000::int) < 5000000000"
  by (simp add: storeSessionToken_def isValidSessionToken_def revokeSessionToken_def
      MAX_SESSIONS_def SESSION_TTL_MS_def oldestKey_def)

text \<open>
  Claim C9, amended. The session store changes only through \<^verbatim>\<open>storeSessionToken\<close>,
  \<^verbatim>\<open>isValidSessionToken\<close> and \<^verbatim>\<open>revokeSessionToken\<close>; there is no periodic sweep.
  An entry, expired or not, stays in the store through every step that is not a check,
  a revocation or a store of its own token, unless a store made at capacity evicts it
  as the oldest entry; it stays through any run of checks and revocations of other
  tokens, at any clock readings. An expired entry is deleted when its own token is
  checked.
\<close>

theorem expired_entry_stays:
  "(map_of s t = Some e \<and> op \<noteq> IsValid t \<and> op \<noteq> Revoke t \<and> op \<noteq> Store t
      \<and> (length s < MAX_SESSIONS \<or> oldestKey s \<noteq> Some t) \<longrightarrow>
        map_of (session_step (now, op) s) t = Some e)
   \<and> (map_of s t = Some e
        \<and> (\<forall>(n, op)\<in>set run. \<exists>u. u \<noteq> t \<and> (op = IsValid u \<or> op = Revoke u)) \<longrightarrow>
        map_of (session_run run s) t = Some e)
   \<and> (map_of s t = Some e \<and> e \<noteq> 0 \<and> e < now \<longrightarrow>
        map_of (session_step (now, IsValid t) s) t = None)"
proof -
  have a: "map_of (session_step (now, op) s) t = Some e"
    if "map_of s t = Some e" "op \<noteq> IsValid t" "op \<noteq> Revoke t" "op \<noteq> Store t"
      "length s < MAX_SESSIONS \<or> oldestKey s \<noteq> Some t"
    using that by (rule step_keeps_entry)
  have b: "map_of (session_run run s) t = Some e"
    if "map_of s t = Some e"
      "\<forall>(n, op)\<in>set run. \<exists>u. u \<noteq> t \<and> (op = IsValid u \<or> op = Revoke u)"
    using that by (rule run_keeps_entry)
  have c: "map_of (session_step (now, IsValid t) s) t = None"
    if "map_of s t = Some e" "e \<noteq> 0" "e < now"
    using that by (simp add: isValidSessionToken_def delete_conv')
  from a b c show ?thesis
    by blast
qed

theorem expired_entry_stays_witness:
  "map_of [(''a'', 2592000000)] ''a'' = Some (2592000000::int)
   \<and> map_of (session_step (5000000000, Store ''b'') [(''a'', 2592000000)]) ''a''
       = Some 2592000000
   \<and> map_of (session_run [(5000000000, IsValid ''b''), (6000000000, Revoke ''c'')]
                [(''a'', 2592000000)]) ''a''
       = Some 2592000000
   \<and> map_of (session_step (5000000000, IsValid ''a'') [(''a'', 2592000000)]) ''a'' = None"
proof -
  have p: "map_of [(''a'', 2592000000)] ''a'' = Some (2592000000::int)"
    by simp
  have below: "length [(''a'', 2592000000::int)] < MAX_SESSIONS"
    by (simp add: MAX_SESSIONS_def)
  have a: "map_of (session_step (5000000000, Store ''b'') [(''a'', 2592000000)]) ''a''
             = Some 2592000000"
    using expired_entry_stays [where s = "[(''a'', 2592000000)]" and t = "''a''"
        and e = 2592000000 and op = "Store ''b''" and now = 5000000000] p below
    by simp
  have others: "\<forall>(n, op)\<in>set [(5000000000::int, IsValid ''b''), (6000000000, Revoke ''c'')].
                  \<exists>u. u \<noteq> ''a'' \<and> (op = IsValid u \<or> op = Revoke u)"
    by simp
  have b: "map_of (session_run [(5000000000, IsValid ''b''), (6000000000, Revoke ''c'')]
                [(''a'', 2592000000)]) ''a''
             = Some 2592000000"
    using expired_entry_stays [where s = "[(''a'', 2592000000)]" and t = "''a''"
        and e = 2592000000
        and run = "[(5000000000, IsValid ''b''), (6000000000, Revoke ''c'')]"] p others
    by blast
  have c: "map_of (session_step (5000000000, IsValid ''a'') [(''a'', 2592000000)]) ''a'' = None"
    using expired_entry_stays [where s = "[(''a'', 2592000000)]" and t = "''a''"
        and e = 2592000000 and now = 5000000000] p
    by simp
  from p a b c show ?thesis
    by blast
qed

section \<open>Properties of password verification\<close>

lemma verifyPassword_plain_eq:
  "verifyPassword_plain e pw =
     Inr (case CLAWSUITE_PASSWORD e of None \<Rightarrow> False | Some c \<Rightarrow> c \<noteq> [] \<and> pw = c)"
  by (auto simp: verifyPassword_plain_def Let_def timingSafeEqual_def Buffer_from_utf8_def
      split: option.splits)

text \<open>
  Claim C1, as it stands, fails: with the descriptor \<open>salt:abc:00\<close> (the iteration
  count is not a number, \<^verbatim>\<open>pbkdf2Sync\<close> throws) and the plaintext password \<open>pw\<close>
  configured as well, the candidate \<open>pw\<close> is accepted.
\<close>

theorem verifyPassword_bad_hash_accepts:
  "CLAWSUITE_PASSWORD_HASH env_bad_hash_and_plain = Some ''salt:abc:00''
   \<and> CHR '':'' \<in> set ''salt:abc:00''
   \<and> verifyPassword_hash example_kdf ''salt:abc:00'' ''pw'' = Inl RangeError
   \<and> verifyPassword example_kdf env_bad_hash_and_plain ''pw'' = Inr True"
proof -
  have nan: "parseInt (Some ''abc'') = None"
    by code_simp
  then have thrown: "verifyPassword_hash example_kdf ''salt:abc:00'' ''pw'' = Inl RangeError"
    by (simp add: verifyPassword_hash_def nth_opt_def pbkdf2Sync_def)
  then have "verifyPassword example_kdf env_bad_hash_and_plain ''pw'' = Inr True"
    by (simp add: verifyPassword_def env_bad_hash_and_plain_def verifyPassword_plain_eq)
  with thrown show ?thesis
    by (simp add: env_bad_hash_and_plain_def)
qed

lemma verifyPassword_falls_through:
  assumes "CLAWSUITE_PASSWORD_HASH e = Some h" "CHR '':'' \<in> set h"
    and "verifyPassword_hash kdf h pw = Inl err"
  shows "verifyPassword kdf e pw = verifyPassword_plain e pw"
proof -
  from assms(2) have "h \<noteq> []"
    by auto
  with assms show ?thesis
    by (simp add: verifyPassword_def)
qed

lemma verifyPassword_hash_answer:
  assumes "CLAWSUITE_PASSWORD_HASH e = Some h" "CHR '':'' \<in> set h"
    and "verifyPassword_hash kdf h pw = Inr b"
  shows "verifyPassword kdf e pw = Inr b"
proof -
  from assms(2) have "h \<noteq> []"
    by auto
  with assms show ?thesis
    by (simp add: verifyPassword_def)
qed

text \<open>
  Claim C1, amended. When a hash descriptor containing a colon is configured,
  \<^verbatim>\<open>verifyPassword\<close> never throws. If the hash path throws (any parse or derivation
  failure, or a stored hash of the wrong length), the answer is that of the plaintext
  comparison: true exactly when a non-empty plaintext password is configured and the
  candidate equals it, so false whenever no plaintext password is configured. If the
  hash path returns, its answer is the answer: a constant-time comparison that fails
  gives false.
\<close>

theorem verifyPassword_hash_failure:
  "CLAWSUITE_PASSWORD_HASH e = Some h \<and> CHR '':'' \<in> set h \<longrightarrow>
     (\<exists>b. verifyPassword kdf e pw = Inr b)
   \<and> (verifyPassword_hash kdf h pw = Inl err \<longrightarrow>
        verifyPassword kdf e pw =
          Inr (case CLAWSUITE_PASSWORD e of None \<Rightarrow> False | Some c \<Rightarrow> c \<noteq> [] \<and> pw = c))
   \<and> (verifyPassword_hash kdf h pw = Inl err \<and> \<not> truthy (CLAWSUITE_PASSWORD e) \<longrightarrow>
        verifyPassword kdf e pw = Inr False)
   \<and> (verifyPassword_hash kdf h pw = Inr b' \<longrightarrow> verifyPassword kdf e pw = Inr b')"
proof (intro impI)
  assume "CLAWSUITE_PASSWORD_HASH e = Some h \<and> CHR '':'' \<in> set h"
  then have h: "CLAWSUITE_PASSWORD_HASH e = Some h" "CHR '':'' \<in> set h"
    by simp_all
  let ?plain = "case CLAWSUITE_PASSWORD e of None \<Rightarrow> False | Some c \<Rightarrow> c \<noteq> [] \<and> pw = c"
  have thrown: "verifyPassword kdf e pw = Inr ?plain"
    if "verifyPassword_hash kdf h pw = Inl err" for err
    using verifyPassword_falls_through [OF h that] by (simp add: verifyPassword_plain_eq)
  have returned: "verifyPassword kdf e pw = Inr b"
    if "verifyPassword_hash kdf h pw = Inr b" for b
    using h that by (rule verifyPassword_hash_answer)
  have total: "\<exists>b. verifyPassword kdf e pw = Inr b"
  proof (cases "verifyPassword_hash kdf h pw")
    case (Inl err)
    then show ?thesis
      using thrown by blast
  next
    case (Inr b)
    then show ?thesis
      using returned by blast
  qed
  have unset: "?plain = False" if "\<not> truthy (CLAWSUITE_PASSWORD e)"
    using that by (simp add: truthy_def split: option.splits)
  show "(\<exists>b. verifyPassword kdf e pw = Inr b)
   \<and> (verifyPassword_hash kdf h pw = Inl err \<longrightarrow> verifyPassword kdf e pw = Inr ?plain)
   \<and> (verifyPassword_hash kdf h pw = Inl err \<and> \<not> truthy (CLAWSUITE_PASSWORD e) \<longrightarrow>
        verifyPassword kdf e pw = Inr False)
   \<and> (verifyPassword_hash kdf h pw = Inr b' \<longrightarrow> verifyPassword kdf e pw = Inr b')"
    using total thrown [of err] returned [of b'] unset by auto
qed

theorem verifyPassword_hash_failure_witness:
  "verifyPassword_hash example_kdf ''salt:abc:00'' ''pw'' = Inl RangeError
   \<and> verifyPassword example_kdf env_bad_hash ''pw'' = Inr False
   \<and> verifyPassword example_kdf env_bad_hash_and_plain ''pw'' = Inr True
   \<and> verifyPassword example_kdf env_bad_hash_and_plain ''px'' = Inr False"
proof -
  have nan: "parseInt (Some ''abc'') = None"
    by code_simp
  then have f: "verifyPassword_hash example_kdf ''salt:abc:00'' pw = Inl RangeError" for pw
    by (simp add: verifyPassword_hash_def nth_opt_def pbkdf2Sync_def)
  have c: "CHR '':'' \<in> set ''salt:abc:00''"
    by simp
  have a: "verifyPassword example_kdf env_bad_hash ''pw'' = Inr False"
    using verifyPassword_hash_failure [where e = env_bad_hash and h = "''salt:abc:00''"
        and kdf = example_kdf and pw = "''pw''" and err = RangeError] f c
    by (simp add: env_bad_hash_def truthy_def)
  have b: "verifyPassword example_kdf env_bad_hash_and_plain ''pw'' = Inr True"
    using verifyPassword_hash_failure [where e = env_bad_hash_and_plain
        and h = "''salt:abc:00''" and kdf = example_kdf and pw = "''pw''" and err = RangeError]
      f c
    by (simp add: env_bad_hash_and_plain_def)
  have d: "verifyPassword example_kdf env_bad_hash_and_plain ''px'' = Inr False"
    using verifyPassword_hash_failure [where e = env_bad_hash_and_plain
        and h = "''salt:abc:00''" and kdf = example_kdf and pw = "''px''" and err = RangeError]
      f c
    by (simp add: env_bad_hash_and_plain_def)
  from f a b d show ?thesis
    by simp
qed

text \<open>The hexadecimal text of a buffer decodes to the buffer, so the derived key
  reaches the comparison unchanged; the outcomes of the hash path follow.\<close>

lemma hex_val_hex_digit: "n < 16 \<Longrightarrow> hex_val (hex_digit n) = Some n"
  by (auto simp: hex_val_def hex_digit_def Let_def)

lemma decode_hex_toString_hex: "decode_hex (toString_hex b) = b"
proof (induction b)
  case Nil
  then show ?case
    by (simp add: toString_hex_def)
next
  case (Cons c b)
  have "(of_char c :: nat) < 256"
    by simp
  then have d: "(of_char c :: nat) div 16 < 16"
    by arith
  have m: "(of_char c :: nat) mod 16 < 16"
    by simp
  have "char_of (16 * ((of_char c :: nat) div 16) + (of_char c :: nat) mod 16) = c"
    by simp
  with Cons d m show ?case
    by (simp add: toString_hex_def hex_val_hex_digit)
qed

lemma verifyPassword_hash_outcomes:
  assumes "split_on CHR '':'' h = salt # iterations # rest"
  shows "verifyPassword_hash kdf h pw =
     (case parseInt (Some iterations) of
        None \<Rightarrow> Inl RangeError
      | Some n \<Rightarrow>
          if n < 1 \<or> 2147483647 < n then Inl RangeError
          else (case rest of
                  [] \<Rightarrow> Inl TypeError
                | hash # _ \<Rightarrow>
                    if length (kdf pw salt (nat n) 32) \<noteq> length (decode_hex hash)
                    then Inl RangeError
                    else Inr (kdf pw salt (nat n) 32 = decode_hex hash)))"
  using assms
  by (simp add: verifyPassword_hash_def nth_opt_def pbkdf2Sync_def Buffer_from_hex_def
      decode_hex_toString_hex timingSafeEqual_def split: option.splits list.splits)

section \<open>Properties of the CSRF check and the request gate\<close>

lemma validateCsrf_safe:
  "toUpperCase (req_method r) \<in> {''GET'', ''HEAD'', ''OPTIONS''} \<Longrightarrow> validateCsrf e r = True"
  by (auto simp: validateCsrf_def)

lemma validateCsrf_unprotected: "\<not> isPasswordProtectionEnabled e \<Longrightarrow> validateCsrf e r = True"
  by (simp add: validateCsrf_def Let_def)

lemma validateCsrf_tokens:
  assumes "toUpperCase (req_method r) \<notin> {''GET'', ''HEAD'', ''OPTIONS''}"
    and "isPasswordProtectionEnabled e"
  shows "validateCsrf e r =
     (case (getCsrfTokenFromCookie (req_headers r ''cookie''), req_headers r ''x-csrf-token'') of
        (Some c, Some h) \<Rightarrow>
          c \<noteq> [] \<and> h \<noteq> [] \<and> length (Buffer_from_utf8 c) = length (Buffer_from_utf8 h)
          \<and> Buffer_from_utf8 c = Buffer_from_utf8 h
      | _ \<Rightarrow> False)"
  using assms
  by (auto simp: validateCsrf_def Let_def truthy_def timingSafeEqual_def CSRF_HEADER_NAME_def
      split: option.splits)

text \<open>
  Claim C3. A request whose method is GET, HEAD or OPTIONS (in any letter case) passes
  whatever its headers are; with password protection disabled every request passes;
  otherwise the request passes exactly when the cookie header carries a non-empty
  \<open>clawsuite-csrf\<close> value, the \<open>x-csrf-token\<close> header carries a non-empty value, and the
  two have the same byte length and the same bytes. A token is present when the test
  \<^verbatim>\<open>!token\<close> of the code fails: a missing value and an empty one both count as missing.
\<close>

theorem validateCsrf_characterisation:
  "(toUpperCase (req_method r) \<in> {''GET'', ''HEAD'', ''OPTIONS''} \<longrightarrow>
      validateCsrf e (r\<lparr>req_headers := hs\<rparr>) = True)
   \<and> (\<not> isPasswordProtectionEnabled e \<longrightarrow> validateCsrf e r = True)
   \<and> (toUpperCase (req_method r) \<notin> {''GET'', ''HEAD'', ''OPTIONS''}
        \<and> isPasswordProtectionEnabled e \<longrightarrow>
        validateCsrf e r =
          (\<exists>c h. getCsrfTokenFromCookie (req_headers r ''cookie'') = Some c \<and> c \<noteq> []
               \<and> req_headers r ''x-csrf-token'' = Some h \<and> h \<noteq> []
               \<and> length (Buffer_from_utf8 c) = length (Buffer_from_utf8 h)
               \<and> Buffer_from_utf8 c = Buffer_from_utf8 h))"
proof -
  have safe: "validateCsrf e (r\<lparr>req_headers := hs\<rparr>) = True"
    if "toUpperCase (req_method r) \<in> {''GET'', ''HEAD'', ''OPTIONS''}"
    using that validateCsrf_safe [of "r\<lparr>req_headers := hs\<rparr>" e] by simp
  have tokens: "validateCsrf e r =
          (\<exists>c h. getCsrfTokenFromCookie (req_headers r ''cookie'') = Some c \<and> c \<noteq> []
               \<and> req_headers r ''x-csrf-token'' = Some h \<and> h \<noteq> []
               \<and> length (Buffer_from_utf8 c) = length (Buffer_from_utf8 h)
               \<and> Buffer_from_utf8 c = Buffer_from_utf8 h)"
    if "toUpperCase (req_method r) \<notin> {''GET'', ''HEAD'', ''OPTIONS''}"
      "isPasswordProtectionEnabled e"
    unfolding validateCsrf_tokens [OF that]
    by (cases "getCsrfTokenFromCookie (req_headers r ''cookie'')";
        cases "req_headers r ''x-csrf-token''") simp_all
  from safe validateCsrf_unprotected [of e r] tokens show ?thesis
    by blast
qed

theorem validateCsrf_characterisation_witness:
  "validateCsrf env_plain (mk_request ''get'' []) = True
   \<and> validateCsrf env_open (mk_request ''POST'' []) = True
   \<and> validateCsrf env_plain (mk_request ''POST'' [(''x-csrf-token'', ''abc'')]) = False
   \<and> validateCsrf env_plain
        (mk_request ''POST'' [(''cookie'', ''a=b; clawsuite-csrf=abd''), (''x-csrf-token'', ''abc'')])
       = False
   \<and> validateCsrf env_plain
        (mk_request ''POST'' [(''cookie'', ''a=b; clawsuite-csrf=abc''), (''x-csrf-token'', ''abc'')])
       = True"
proof -
  have safe: "toUpperCase (req_method (mk_request ''get'' [])) \<in> {''GET'', ''HEAD'', ''OPTIONS''}"
    by code_simp
  have post: "toUpperCase (req_method (mk_request ''POST'' hs)) \<notin> {''GET'', ''HEAD'', ''OPTIONS''}"
    for hs
    by (simp add: mk_request_def toUpperCase_def toUpperChar_def)
  have on: "isPasswordProtectionEnabled env_plain"
    by (simp add: isPasswordProtectionEnabled_def env_plain_def truthy_def)
  have off: "\<not> isPasswordProtectionEnabled env_open"
    by (simp add: isPasswordProtectionEnabled_def env_open_def truthy_def)
  have same: "(mk_request ''get'' [])\<lparr>req_headers := map_of []\<rparr> = mk_request ''get'' []"
    by (simp add: mk_request_def)
  have a0: "validateCsrf env_plain ((mk_request ''get'' [])\<lparr>req_headers := map_of []\<rparr>) = True"
    using validateCsrf_characterisation [where e = env_plain and r = "mk_request ''get'' []"
        and hs = "map_of []"] safe
    by blast
  have a: "validateCsrf env_plain (mk_request ''get'' []) = True"
    using a0 unfolding same .
  have b: "validateCsrf env_open (mk_request ''POST'' []) = True"
    using validateCsrf_characterisation [where e = env_open and r = "mk_request ''POST'' []"] off
    by blast
  have c: "validateCsrf env_plain (mk_request ''POST'' [(''x-csrf-token'', ''abc'')]) = False"
    using validateCsrf_characterisation [where e = env_plain
        and r = "mk_request ''POST'' [(''x-csrf-token'', ''abc'')]"] on post
    by (simp add: mk_request_def getCsrfTokenFromCookie_def)
  have ck: "getCsrfTokenFromCookie (Some ''a=b; clawsuite-csrf=abd'') = Some ''abd''"
    "getCsrfTokenFromCookie (Some ''a=b; clawsuite-csrf=abc'') = Some ''abc''"
    by code_simp+
  have d: "validateCsrf env_plain
        (mk_request ''POST'' [(''cookie'', ''a=b; clawsuite-csrf=abd''), (''x-csrf-token'', ''abc'')])
       = False"
    using validateCsrf_characterisation [where e = env_plain
        and r = "mk_request ''POST''
          [(''cookie'', ''a=b; clawsuite-csrf=abd''), (''x-csrf-token'', ''abc'')]"] on post
      ck
    by (simp add: mk_request_def Buffer_from_utf8_def)
  have e: "validateCsrf env_plain
        (mk_request ''POST'' [(''cookie'', ''a=b; clawsuite-csrf=abc''), (''x-csrf-token'', ''abc'')])
       = True"
    using validateCsrf_characterisation [where e = env_plain
        and r = "mk_request ''POST''
          [(''cookie'', ''a=b; clawsuite-csrf=abc''), (''x-csrf-token'', ''abc'')]"] on post
      ck
    by (simp add: mk_request_def Buffer_from_utf8_def)
  from a b c d e show ?thesis
    by blast
qed

lemma validateCsrf_fails_unsafe:
  "\<not> validateCsrf e r \<Longrightarrow> toUpperCase (req_method r) \<notin> {''GET'', ''HEAD'', ''OPTIONS''}"
  using validateCsrf_safe [of r e] by blast

text \<open>
  Claim C2. An unauthenticated request gets the 401 response; an authenticated one
  whose CSRF check fails gets the 403 response, and its method is then not one of the
  safe methods GET, HEAD, OPTIONS; every other request gets no response (null). The
  session store is left as the authentication check leaves it.
\<close>

theorem requireAuth_outcomes:
  "(\<not> fst (isAuthenticated e now r s) \<longrightarrow> fst (requireAuth e now r s) = Some unauthorized)
   \<and> (fst (isAuthenticated e now r s) \<and> \<not> validateCsrf e r \<longrightarrow>
        fst (requireAuth e now r s) = Some csrf_failed
        \<and> toUpperCase (req_method r) \<notin> {''GET'', ''HEAD'', ''OPTIONS''})
   \<and> (fst (isAuthenticated e now r s) \<and> validateCsrf e r \<longrightarrow>
        fst (requireAuth e now r s) = None)
   \<and> snd (requireAuth e now r s) = snd (isAuthenticated e now r s)
   \<and> status unauthorized = 401 \<and> status csrf_failed = 403"
proof -
  obtain authenticated s' where a: "isAuthenticated e now r s = (authenticated, s')"
    by (cases "isAuthenticated e now r s")
  have denied: "fst (requireAuth e now r s) = Some unauthorized" if "\<not> authenticated"
    using a that by (simp add: requireAuth_def)
  have forged: "fst (requireAuth e now r s) = Some csrf_failed"
    if "authenticated" "\<not> validateCsrf e r"
    using a that by (simp add: requireAuth_def)
  have passed: "fst (requireAuth e now r s) = None" if "authenticated" "validateCsrf e r"
    using a that by (simp add: requireAuth_def)
  have store: "snd (requireAuth e now r s) = s'"
    using a by (simp add: requireAuth_def)
  have codes: "status unauthorized = 401 \<and> status csrf_failed = 403"
    by (simp add: unauthorized_def csrf_failed_def)
  from denied forged passed store codes validateCsrf_fails_unsafe [of e r] show ?thesis
    by (simp add: a)
qed

theorem requireAuth_outcomes_witness:
  "fst (requireAuth env_plain 50 (mk_request ''POST'' []) [(''tok'', 100)]) = Some unauthorized
   \<and> fst (requireAuth env_plain 50
            (mk_request ''POST'' [(''cookie'', ''clawsuite-auth=tok'')]) [(''tok'', 100)])
       = Some csrf_failed
   \<and> fst (requireAuth env_plain 50
            (mk_request ''POST''
               [(''cookie'', ''clawsuite-auth=tok; clawsuite-csrf=abc''), (''x-csrf-token'', ''abc'')])
            [(''tok'', 100)])
       = None
   \<and> status unauthorized = 401 \<and> status csrf_failed = 403"
proof -
  have n1: "\<not> fst (isAuthenticated env_plain 50 (mk_request ''POST'' []) [(''tok'', 100)])"
    by code_simp
  have y2: "fst (isAuthenticated env_plain 50
                  (mk_request ''POST'' [(''cookie'', ''clawsuite-auth=tok'')]) [(''tok'', 100)])"
    by code_simp
  have n2: "\<not> validateCsrf env_plain (mk_request ''POST'' [(''cookie'', ''clawsuite-auth=tok'')])"
    by code_simp
  have y3: "fst (isAuthenticated env_plain 50
                  (mk_request ''POST''
                     [(''cookie'', ''clawsuite-auth=tok; clawsuite-csrf=abc''),
                      (''x-csrf-token'', ''abc'')])
                  [(''tok'', 100)])"
    by code_simp
  have c3: "validateCsrf env_plain
              (mk_request ''POST''
                 [(''cookie'', ''clawsuite-auth=tok; clawsuite-csrf=abc''),
                  (''x-csrf-token'', ''abc'')])"
    by code_simp
  have a: "fst (requireAuth env_plain 50 (mk_request ''POST'' []) [(''tok'', 100)])
             = Some unauthorized"
    using requireAuth_outcomes [where e = env_plain and now = 50
        and r = "mk_request ''POST'' []" and s = "[(''tok'', 100)]"] n1
    by blast
  have b: "fst (requireAuth env_plain 50
                 (mk_request ''POST'' [(''cookie'', ''clawsuite-auth=tok'')]) [(''tok'', 100)])
             = Some csrf_failed"
    using requireAuth_outcomes [where e = env_plain and now = 50
        and r = "mk_request ''POST'' [(''cookie'', ''clawsuite-auth=tok'')]"
        and s = "[(''tok'', 100)]"] y2 n2
    by blast
  have c: "fst (requireAuth env_plain 50
                 (mk_request ''POST''
                    [(''cookie'', ''clawsuite-auth=tok; clawsuite-csrf=abc''),
                     (''x-csrf-token'', ''abc'')])
                 [(''tok'', 100)])
             = None"
    using requireAuth_outcomes [where e = env_plain and now = 50
        and r = "mk_request ''POST''
                   [(''cookie'', ''clawsuite-auth=tok; clawsuite-csrf=abc''),
                    (''x-csrf-token'', ''abc'')]"
        and s = "[(''tok'', 100)]"] y3 c3
    by blast
  have d: "status unauthorized = 401 \<and> status csrf_failed = 403"
    using requireAuth_outcomes [where e = env_plain and now = 50
        and r = "mk_request ''POST'' []" and s = "[(''tok'', 100)]"]
    by blast
  from a b c d show ?thesis
    by blast
qed

section \<open>Properties of the rate limiter\<close>

lemma rateLimit_allowed:
  "fst (rateLimit now key m w st) \<longleftrightarrow>
     int (length (filter (\<lambda>t. now - t < w) (timestamps_of st key))) < m"
  by (simp add: rateLimit_def Let_def timestamps_of_def)

lemma rateLimit_timestamps:
  "timestamps_of (snd (rateLimit now key m w st)) key =
     (if fst (rateLimit now key m w st)
      then filter (\<lambda>t. now - t < w) (timestamps_of st key) @ [now]
      else filter (\<lambda>t. now - t < w) (timestamps_of st key))"
  by (simp add: rateLimit_def Let_def timestamps_of_def update_conv')

lemma rateLimit_other_key:
  "k \<noteq> key \<Longrightarrow> timestamps_of (snd (rateLimit now key m w st)) k = timestamps_of st k"
  by (simp add: rateLimit_def Let_def timestamps_of_def update_conv' split: option.splits)

lemma rateLimit_window_of_three:
  assumes "t1 \<le> t2" "t2 \<le> t3" "t3 \<le> t4" "t4 - t1 < 1000" "1000 \<le> t5 - t3"
    and "filter (\<lambda>t. t1 - t < 1000) (timestamps_of st key) = []"
  shows "fst (rateLimit_calls [t1, t2, t3, t4, t5] key 3 1000 st)
           = [True, True, True, False, True]"
    and "timestamps_of (snd (rateLimit_calls [t1, t2, t3] key 3 1000 st)) key = [t1, t2, t3]"
    and "timestamps_of (snd (rateLimit_calls [t1, t2, t3, t4] key 3 1000 st)) key
           = [t1, t2, t3]"
proof -
  obtain s1 where s1: "rateLimit t1 key 3 1000 st = (True, s1)" "timestamps_of s1 key = [t1]"
    using assms(6) rateLimit_allowed [of t1 key 3 1000 st]
      rateLimit_timestamps [of t1 key 3 1000 st]
    by (cases "rateLimit t1 key 3 1000 st") auto
  obtain s2 where s2: "rateLimit t2 key 3 1000 s1 = (True, s2)"
      "timestamps_of s2 key = [t1, t2]"
    using assms s1(2) rateLimit_allowed [of t2 key 3 1000 s1]
      rateLimit_timestamps [of t2 key 3 1000 s1]
    by (cases "rateLimit t2 key 3 1000 s1") auto
  obtain s3 where s3: "rateLimit t3 key 3 1000 s2 = (True, s3)"
      "timestamps_of s3 key = [t1, t2, t3]"
    using assms s2(2) rateLimit_allowed [of t3 key 3 1000 s2]
      rateLimit_timestamps [of t3 key 3 1000 s2]
    by (cases "rateLimit t3 key 3 1000 s2") auto
  obtain s4 where s4: "rateLimit t4 key 3 1000 s3 = (False, s4)"
      "timestamps_of s4 key = [t1, t2, t3]"
    using assms s3(2) rateLimit_allowed [of t4 key 3 1000 s3]
      rateLimit_timestamps [of t4 key 3 1000 s3]
    by (cases "rateLimit t4 key 3 1000 s3") auto
  obtain s5 where s5: "rateLimit t5 key 3 1000 s4 = (True, s5)"
    using assms s4(2) rateLimit_allowed [of t5 key 3 1000 s4]
    by (cases "rateLimit t5 key 3 1000 s4") auto
  show "fst (rateLimit_calls [t1, t2, t3, t4, t5] key 3 1000 st)
          = [True, True, True, False, True]"
    using s1 s2 s3 s4 s5 by simp
  show "timestamps_of (snd (rateLimit_calls [t1, t2, t3] key 3 1000 st)) key = [t1, t2, t3]"
    using s1 s2 s3 by simp
  show "timestamps_of (snd (rateLimit_calls [t1, t2, t3, t4] key 3 1000 st)) key
          = [t1, t2, t3]"
    using s1 s2 s3 s4 by simp
qed

text \<open>
  Claim C6. With \<open>maxRequests = 3\<close> and \<open>windowMs = 1000\<close>, for a key with no timestamp
  inside the window at the first call: three calls within one window are allowed, a
  fourth in the same window is refused and leaves the three timestamps as they were,
  and a call at least 1000 ms after the third is allowed again. In general a call is
  allowed exactly when fewer than \<open>maxRequests\<close> of the key's timestamps satisfy
  \<open>now - t < windowMs\<close>, and the key then holds those timestamps, followed by \<open>now\<close>
  only if the call was allowed.
\<close>

theorem rateLimit_sliding_window:
  "(t1 \<le> t2 \<and> t2 \<le> t3 \<and> t3 \<le> t4 \<and> t4 - t1 < 1000 \<and> 1000 \<le> t5 - t3
      \<and> filter (\<lambda>t. t1 - t < 1000) (timestamps_of st key) = [] \<longrightarrow>
        fst (rateLimit_calls [t1, t2, t3, t4, t5] key 3 1000 st)
          = [True, True, True, False, True]
      \<and> timestamps_of (snd (rateLimit_calls [t1, t2, t3] key 3 1000 st)) key = [t1, t2, t3]
      \<and> timestamps_of (snd (rateLimit_calls [t1, t2, t3, t4] key 3 1000 st)) key
          = [t1, t2, t3])
   \<and> (fst (rateLimit now key m w st') \<longleftrightarrow>
        int (length (filter (\<lambda>t. now - t < w) (timestamps_of st' key))) < m)
   \<and> timestamps_of (snd (rateLimit now key m w st')) key =
       (if fst (rateLimit now key m w st')
        then filter (\<lambda>t. now - t < w) (timestamps_of st' key) @ [now]
        else filter (\<lambda>t. now - t < w) (timestamps_of st' key))"
  using rateLimit_window_of_three [of t1 t2 t3 t4 t5 st key]
    rateLimit_allowed [of now key m w st'] rateLimit_timestamps [of now key m w st']
  by blast

theorem rateLimit_sliding_window_witness:
  "fst (rateLimit_calls [0, 10, 20, 999, 1020] ''local'' 3 1000 [])
     = [True, True, True, False, True]
   \<and> timestamps_of (snd (rateLimit_calls [0, 10, 20, 999] ''local'' 3 1000 [])) ''local''
     = [0, 10, 20]"
  using rateLimit_sliding_window [where ?t1.0 = 0 and ?t2.0 = 10 and ?t3.0 = 20
      and ?t4.0 = 999 and ?t5.0 = 1020 and st = "[]" and key = "''local''"]
  by (simp add: timestamps_of_def)

lemma cleanup_eq:
  "cleanup now st =
     filter (\<lambda>(k, ts). ts \<noteq> [])
       (map (\<lambda>(k, ts). (k, filter (\<lambda>t. now - t < 120000) ts)) st)"
  by (induction now st rule: cleanup.induct) (simp_all add: Let_def)

lemma map_of_cleanup_stale:
  "map_of st key = Some ts \<Longrightarrow> distinct (map fst st) \<Longrightarrow> \<forall>t\<in>set ts. \<not> now - t < 120000
     \<Longrightarrow> map_of (cleanup now st) key = None"
proof (induction now st rule: cleanup.induct)
  case (1 now)
  then show ?case
    by simp
next
  case (2 now k ts' rest)
  show ?case
  proof (cases "k = key")
    case True
    with 2 have "ts' = ts"
      by simp
    moreover have "key \<notin> fst ` set rest"
      using 2 True by auto
    then have "key \<notin> fst ` set (cleanup now rest)"
      by (force simp: cleanup_eq)
    then have "map_of (cleanup now rest) key = None"
      by (simp add: map_of_eq_None_iff)
    ultimately show ?thesis
      using 2 True by (simp add: Let_def)
  next
    case False
    with 2 show ?thesis
      by (simp add: Let_def)
  qed
qed

text \<open>
  Claim C10. The sweep keeps, for every key, the timestamps with \<open>now - t < 120000\<close>
  and drops the keys left with none, whatever window the key is used with. So when a
  key holds at least \<open>maxRequests\<close> timestamps that are 120000 ms old or older and still
  inside its window \<open>windowMs\<close> (which is then greater than 120000), a call that
  \<^verbatim>\<open>rateLimit\<close> refuses is allowed once the sweep has run: more than \<open>maxRequests\<close>
  calls within one window.
\<close>

theorem cleanup_cutoff_ignores_window:
  "cleanup now st =
     filter (\<lambda>(k, ts). ts \<noteq> [])
       (map (\<lambda>(k, ts). (k, filter (\<lambda>t. now - t < 120000) ts)) st)
   \<and> (distinct (map fst st) \<and> map_of st key = Some ts
        \<and> (\<forall>t\<in>set ts. 120000 \<le> now - t \<and> now - t < w) \<and> 1 \<le> m \<and> m \<le> int (length ts)
      \<longrightarrow> 120000 < w
          \<and> fst (rateLimit now key m w st) = False
          \<and> fst (rateLimit now key m w (cleanup now st)) = True)"
proof -
  have b: "120000 < w \<and> fst (rateLimit now key m w st) = False
          \<and> fst (rateLimit now key m w (cleanup now st)) = True"
    if h: "distinct (map fst st)" "map_of st key = Some ts"
        "\<forall>t\<in>set ts. 120000 \<le> now - t \<and> now - t < w" "1 \<le> m" "m \<le> int (length ts)"
  proof -
    have keep: "filter (\<lambda>t. now - t < w) ts = ts"
      using h(3) by (simp add: filter_id_conv)
    have gone: "map_of (cleanup now st) key = None"
      using h(1,2,3) by (intro map_of_cleanup_stale [where ts = ts]) auto
    from h(4,5) have "ts \<noteq> []"
      by auto
    then obtain t where "t \<in> set ts"
      by (cases ts) auto
    with h(3) have wide: "120000 < w"
      by fastforce
    show ?thesis
      using h(2,4,5) keep gone wide by (simp add: rateLimit_def Let_def)
  qed
  show ?thesis
    using cleanup_eq b by blast
qed

theorem cleanup_cutoff_ignores_window_witness:
  "fst (rateLimit_calls [0, 0, 0] ''local'' 3 300000 []) = [True, True, True]
   \<and> snd (rateLimit_calls [0, 0, 0] ''local'' 3 300000 []) = [(''local'', [0, 0, 0])]
   \<and> fst (rateLimit 120000 ''local'' 3 300000 [(''local'', [0, 0, 0])]) = False
   \<and> cleanup 120000 [(''local'', [0, 0, 0])] = []
   \<and> fst (rateLimit 120000 ''local'' 3 300000 (cleanup 120000 [(''local'', [0, 0, 0])])) = True"
proof -
  have run: "rateLimit_calls [0, 0, 0] ''local'' 3 300000 []
               = ([True, True, True], [(''local'', [0, 0, 0])])"
    by (simp add: rateLimit_def)
  have sweep: "cleanup 120000 [(''local'', [0, 0, 0])] = []"
    by simp
  have "fst (rateLimit 120000 ''local'' 3 300000 [(''local'', [0, 0, 0])]) = False
        \<and> fst (rateLimit 120000 ''local'' 3 300000 (cleanup 120000 [(''local'', [0, 0, 0])]))
            = True"
    using cleanup_cutoff_ignores_window [where now = 120000 and st = "[(''local'', [0, 0, 0])]"
        and key = "''local''" and ts = "[0, 0, 0]" and w = 300000 and m = 3]
    by simp
  with run sweep show ?thesis
    by simp
qed

lemma when_truthy_None: "\<not> truthy v \<Longrightarrow> when_truthy v = None"
  by (cases v) (simp_all add: truthy_def when_truthy_def)

lemma getClientIp_untrusted:
  "\<not> truthy (map_option trim (TRUSTED_PROXY_IP e)) \<Longrightarrow> getClientIp e r = ''local''"
  by (simp add: getClientIp_def when_truthy_None)

text \<open>
  Claim C7. With no trusted proxy configured (the variable is unset, empty or blank),
  \<^verbatim>\<open>getClientIp\<close> answers \<open>local\<close> for every request, so any two requests get the same
  key whatever their \<open>x-real-ip\<close> and \<open>x-forwarded-for\<close> headers say; an answer other
  than \<open>local\<close> is given only when a trusted proxy is configured.
\<close>

theorem getClientIp_ignores_headers:
  "(\<not> truthy (map_option trim (TRUSTED_PROXY_IP e)) \<longrightarrow>
      getClientIp e r = ''local'' \<and> getClientIp e r = getClientIp e r')
   \<and> (getClientIp e r \<noteq> ''local'' \<longrightarrow> truthy (map_option trim (TRUSTED_PROXY_IP e)))"
  using getClientIp_untrusted [of e r] getClientIp_untrusted [of e r'] by auto

theorem getClientIp_ignores_headers_witness:
  "getClientIp env_open (mk_request ''GET'' [(''x-forwarded-for'', ''6.6.6.6'')]) = ''local''
   \<and> getClientIp env_open (mk_request ''GET'' [(''x-forwarded-for'', ''6.6.6.6'')])
       = getClientIp env_open (mk_request ''GET'' [(''x-real-ip'', ''7.7.7.7'')])
   \<and> getClientIp env_proxy (mk_request ''GET'' [(''x-forwarded-for'', ''6.6.6.6, 10.0.0.1'')])
       = ''6.6.6.6''
   \<and> truthy (map_option trim (TRUSTED_PROXY_IP env_proxy))"
proof -
  have off: "\<not> truthy (map_option trim (TRUSTED_PROXY_IP env_open))"
    by (simp add: env_open_def truthy_def)
  have fwd: "getClientIp env_proxy
               (mk_request ''GET'' [(''x-forwarded-for'', ''6.6.6.6, 10.0.0.1'')]) = ''6.6.6.6''"
    by code_simp
  then have "getClientIp env_proxy
               (mk_request ''GET'' [(''x-forwarded-for'', ''6.6.6.6, 10.0.0.1'')]) \<noteq> ''local''"
    by simp
  then have on: "truthy (map_option trim (TRUSTED_PROXY_IP env_proxy))"
    using getClientIp_ignores_headers [where e = env_proxy
        and r = "mk_request ''GET'' [(''x-forwarded-for'', ''6.6.6.6, 10.0.0.1'')]"]
    by blast
  have loc: "getClientIp env_open (mk_request ''GET'' [(''x-forwarded-for'', ''6.6.6.6'')])
               = ''local''
             \<and> getClientIp env_open (mk_request ''GET'' [(''x-forwarded-for'', ''6.6.6.6'')])
               = getClientIp env_open (mk_request ''GET'' [(''x-real-ip'', ''7.7.7.7'')])"
    using off getClientIp_ignores_headers [where e = env_open
        and r = "mk_request ''GET'' [(''x-forwarded-for'', ''6.6.6.6'')]"
        and r' = "mk_request ''GET'' [(''x-real-ip'', ''7.7.7.7'')]"]
    by blast
  from loc fwd on show ?thesis
    by blast
qed
end
